theory Spec2Isabelle
  imports Complex_Main "HOL-Library.Sublist"
begin

section \<open>Python strings\<close>

text \<open>
  A Python \<open>str\<close> is a sequence of code points, and \<open>len\<close>, \<open>find\<close> and slicing count
  code points. The model uses \<^typ>\<open>string\<close> and reads each \<^typ>\<open>char\<close> as one code
  point in the range 0..255, so \<^const>\<open>length\<close> counts exactly what \<open>len\<close> counts on
  such strings. \<open>str.isspace\<close>, \<open>str.lower\<close>, \<open>str.strip\<close>, \<open>str.find\<close>, slicing
  and \<open>str.replace\<close> are written out for this range.
\<close>

definition isspace :: "char \<Rightarrow> bool" where
  \<comment> \<open>the code points below 256 that Python treats as whitespace:
      TAB, LF, VT, FF, CR, FS, GS, RS, US, SPACE, NEL, NBSP\<close>
  "isspace c =
     (let n = (of_char c :: nat)
      in (9 \<le> n \<and> n \<le> 13) \<or> (28 \<le> n \<and> n \<le> 32) \<or> n = 133 \<or> n = 160)"

definition lstrip :: "string \<Rightarrow> string" where
  "lstrip s = dropWhile isspace s"

definition rstrip :: "string \<Rightarrow> string" where
  "rstrip s = rev (dropWhile isspace (rev s))"

definition strip :: "string \<Rightarrow> string" where
  \<comment> \<open>\<open>s.strip()\<close>\<close>
  "strip s = rstrip (lstrip s)"

definition lower_char :: "char \<Rightarrow> char" where
  \<comment> \<open>A..Z and the upper-case letters of Latin-1 (all of 192..222 but the
      multiplication sign 215) move up by 32; every other code point below 256 is fixed\<close>
  "lower_char c =
     (let n = (of_char c :: nat)
      in if (65 \<le> n \<and> n \<le> 90) \<or> (192 \<le> n \<and> n \<le> 222 \<and> n \<noteq> 215)
         then char_of (n + 32) else c)"

definition lower :: "string \<Rightarrow> string" where
  \<comment> \<open>\<open>s.lower()\<close>\<close>
  "lower s = map lower_char s"

fun find_from :: "nat \<Rightarrow> string \<Rightarrow> string \<Rightarrow> int" where
  "find_from i [] k = (if k = [] then int i else - 1)"
| "find_from i (c # cs) k =
     (if prefix k (c # cs) then int i else find_from (Suc i) cs k)"

definition str_find :: "string \<Rightarrow> string \<Rightarrow> int" where
  \<comment> \<open>\<open>s.find(k)\<close>: the lowest index at which \<open>k\<close> occurs in \<open>s\<close>, or \<open>-1\<close>\<close>
  "str_find s k = find_from 0 s k"

definition slice_index :: "string \<Rightarrow> int \<Rightarrow> nat" where
  \<comment> \<open>a slice bound: a negative one counts from the end, and both are clipped to the string\<close>
  "slice_index s i =
     (let n = int (length s)
      in if i < 0 then nat (max 0 (n + i)) else nat (min i n))"

definition slice :: "string \<Rightarrow> int \<Rightarrow> int \<Rightarrow> string" where
  \<comment> \<open>\<open>s[start:end]\<close>\<close>
  "slice s start end = drop (slice_index s start) (take (slice_index s end) s)"

definition replace :: "char \<Rightarrow> char \<Rightarrow> string \<Rightarrow> string" where
  \<comment> \<open>\<open>s.replace(old, new)\<close> for one-character \<open>old\<close> and \<open>new\<close>\<close>
  "replace old new s = map (\<lambda>c. if c = old then new else c) s"

abbreviation newline :: char where
  "newline \<equiv> CHR 0x0A"

abbreviation space :: char where
  "space \<equiv> CHR '' ''"

section \<open>The snippet extractor\<close>

text \<open>
  \<open>BeautifulSoup(snippet, "lxml").get_text()\<close> is a library call: it is a parameter
  \<open>get_text\<close>, with \<open>None\<close> when the call raises an \<open>Exception\<close>. The keyword is
  \<open>None\<close> (Python's \<open>None\<close>) or a string; \<open>not keyword\<close> holds of both \<open>None\<close> and
  the empty string.
\<close>

definition truthy :: "string option \<Rightarrow> bool" where
  "truthy v = (case v of None \<Rightarrow> False | Some s \<Rightarrow> s \<noteq> [])"

definition search_in_html ::
  "(string \<Rightarrow> string option) \<Rightarrow> string \<Rightarrow> string option \<Rightarrow> string option" where
  "search_in_html get_text html keyword =
     (case keyword of
        None \<Rightarrow> None
      | Some kw \<Rightarrow>
          if kw = [] then None
          else
            let lowered = lower html;
                k = lower kw;
                idx = str_find lowered k
            in if idx = - 1 then None
               else
                 let start = max 0 (idx - 120);
                     end = min (int (length html)) (idx + 120);
                     snippet = slice html start end;
                     s = (case get_text snippet of Some t \<Rightarrow> t | None \<Rightarrow> snippet)
                 in Some (''...'' @ replace newline space (strip s) @ ''...''))"

section \<open>The crawler\<close>

subsection \<open>Exceptions, the driver and the outside world\<close>

datatype pyexn =
    TimeoutException
  | WebDriverException string
  | OtherException string
  | FileNotFoundError
  | ValueError
  | KeyboardInterrupt

fun is_WebDriverException :: "pyexn \<Rightarrow> bool" where
  \<comment> \<open>what \<open>except WebDriverException\<close> catches; \<open>TimeoutException\<close> is a subclass\<close>
  "is_WebDriverException TimeoutException = True"
| "is_WebDriverException (WebDriverException m) = True"
| "is_WebDriverException e = False"

fun is_Exception :: "pyexn \<Rightarrow> bool" where
  \<comment> \<open>what \<open>except Exception\<close> catches: all but \<open>KeyboardInterrupt\<close>, a \<open>BaseException\<close>\<close>
  "is_Exception KeyboardInterrupt = False"
| "is_Exception e = True"

text \<open>
  The driver answers by attempt number and link. \<open>drv_get\<close> is \<open>driver.get(link)\<close>
  (\<open>None\<close>: it returned), \<open>drv_page_source\<close> is \<open>driver.page_source\<close> (possibly
  \<open>None\<close>) and \<open>drv_title\<close> is \<open>driver.title\<close>; each may raise.
\<close>

record driver =
  drv_get :: "int \<Rightarrow> string \<Rightarrow> pyexn option"
  drv_page_source :: "int \<Rightarrow> string \<Rightarrow> pyexn + string option"
  drv_title :: "int \<Rightarrow> string \<Rightarrow> pyexn + string"

record world =
  make_firefox_driver :: "bool \<Rightarrow> pyexn + driver"
  utcnow :: "int \<Rightarrow> string"
  random_draw :: "int \<Rightarrow> real"
  soup_get_text :: "string \<Rightarrow> string option"

record config =
  keyword :: "string option"
  max_links_per_site :: int
  delay_min :: real
  delay_max :: real
  headless :: bool

record entry =
  url :: string
  title :: string
  snippet :: string
  timestamp :: string

datatype event =
    StartDriver
  | Get string
  | RenderWait
  | Delay real
  | Quit
  | WriteResult "entry list"

record crawl_state =
  count :: int
  entries :: "entry list"
  events :: "event list"

subsection \<open>Reading and deduplicating the links\<close>

definition dedup_step :: "string \<Rightarrow> string set \<times> string list \<Rightarrow> string set \<times> string list" where
  "dedup_step l = (\<lambda>(seen, uniq_links).
     if l \<notin> seen then (insert l seen, uniq_links @ [l]) else (seen, uniq_links))"

definition dedup :: "string list \<Rightarrow> string list" where
  "dedup links = snd (fold dedup_step links ({}, []))"

definition read_links :: "string list \<Rightarrow> string list" where
  \<comment> \<open>\<open>[ln.strip() for ln in raw if ln.strip()]\<close>\<close>
  "read_links raw = map strip (filter (\<lambda>ln. strip ln \<noteq> []) raw)"

subsection \<open>One link\<close>

definition uniform :: "world \<Rightarrow> int \<Rightarrow> real \<Rightarrow> real \<Rightarrow> real" where
  \<comment> \<open>\<open>random.uniform(a, b)\<close> is \<open>a + (b - a) * random()\<close>, here over the reals\<close>
  "uniform w c a b = a + (b - a) * random_draw w c"

definition try_link ::
  "world \<Rightarrow> driver \<Rightarrow> config \<Rightarrow> int \<Rightarrow> string \<Rightarrow> event list \<times> (pyexn + entry list)" where
  \<comment> \<open>the body of the inner \<open>try\<close>: the events it causes, and the exception it raises
      or the entries it appends\<close>
  "try_link w d cfg c link =
     (case drv_get d c link of
        Some e \<Rightarrow> ([Get link], Inl e)
      | None \<Rightarrow>
          (case drv_page_source d c link of
             Inl e \<Rightarrow> ([Get link, RenderWait], Inl e)
           | Inr src \<Rightarrow>
               let html = (case src of None \<Rightarrow> [] | Some h \<Rightarrow> h);
                   t = (case drv_title d c link of
                          Inl e \<Rightarrow> if is_Exception e then Inr [] else Inl e
                        | Inr t \<Rightarrow> Inr t)
               in (case t of
                     Inl e \<Rightarrow> ([Get link, RenderWait], Inl e)
                   | Inr ttl \<Rightarrow>
                       let found = (if truthy (keyword cfg)
                                    then search_in_html (soup_get_text w) html (keyword cfg)
                                    else None)
                       in (case found of
                             None \<Rightarrow> ([Get link, RenderWait], Inr [])
                           | Some sn \<Rightarrow>
                               if sn = [] then ([Get link, RenderWait], Inr [])
                               else ([Get link, RenderWait],
                                     Inr [\<lparr>url = link, title = ttl, snippet = sn,
                                           timestamp = utcnow w c @ ''Z''\<rparr>])))))"

subsection \<open>The loop and the run\<close>

fun except_clauses :: "pyexn + entry list \<Rightarrow> pyexn + entry list" where
  \<comment> \<open>the handlers of the inner \<open>try\<close>, in their order: each logs the failure and lets
      the loop go on; an exception none of them catches leaves the loop\<close>
  "except_clauses (Inr new) = Inr new"
| "except_clauses (Inl e) =
     (if e = TimeoutException then Inr []
      else if is_WebDriverException e then Inr []
      else if is_Exception e then Inr []
      else Inl e)"

fun crawl_loop ::
  "world \<Rightarrow> driver \<Rightarrow> config \<Rightarrow> string list \<Rightarrow> crawl_state \<Rightarrow> pyexn option \<times> crawl_state" where
  "crawl_loop w d cfg [] st = (None, st)"
| "crawl_loop w d cfg (link # rest) st =
     (let c = count st + 1;
          st1 = st\<lparr>count := c\<rparr>
      in if c > max_links_per_site cfg then (None, st1)
         else
           (case try_link w d cfg c link of
              (evs, res) \<Rightarrow>
                let st2 = st1\<lparr>events := events st1 @ evs\<rparr>
                in (case except_clauses res of
                      Inl e \<Rightarrow> (Some e, st2)
                    | Inr new \<Rightarrow>
                        let st3 = st2\<lparr>entries := entries st2 @ new\<rparr>;
                            delay = uniform w c (delay_min cfg) (delay_max cfg)
                        in if delay < 0 then (Some ValueError, st3)
                           else crawl_loop w d cfg rest
                                  (st3\<lparr>events := events st3 @ [Delay delay]\<rparr>))))"

datatype outcome = Returned | Raised pyexn

definition crawl_file ::
  "world \<Rightarrow> string list option \<Rightarrow> config \<Rightarrow> outcome \<times> event list" where
  "crawl_file w input cfg =
     (case input of
        None \<Rightarrow> (Raised FileNotFoundError, [])
      | Some raw \<Rightarrow>
          let links = read_links raw
          in if links = [] then (Returned, [])
             else
               let uniq_links = dedup links
               in (case make_firefox_driver w (headless cfg) of
                     Inl e \<Rightarrow>
                       (if is_WebDriverException e then Returned else Raised e, [StartDriver])
                   | Inr d \<Rightarrow>
                       (case crawl_loop w d cfg uniq_links
                               \<lparr>count = 0, entries = [], events = [StartDriver]\<rparr> of
                          (Some e, st) \<Rightarrow> (Raised e, events st @ [Quit])
                        | (None, st) \<Rightarrow>
                            (Returned, events st @ [Quit, WriteResult (entries st)]))))"

definition exits_zero :: "outcome \<Rightarrow> bool" where
  \<comment> \<open>the script calls \<open>crawl_file\<close> last: its exit status is 0 exactly when the call returns\<close>
  "exits_zero r = (r = Returned)"

subsection \<open>Reading a run's events\<close>

fun attempted :: "event list \<Rightarrow> string list" where
  \<comment> \<open>the links handed to \<open>driver.get\<close>, in order\<close>
  "attempted [] = []"
| "attempted (Get l # es) = l # attempted es"
| "attempted (e # es) = attempted es"


fun quits :: "event list \<Rightarrow> nat" where
  \<comment> \<open>how many times \<open>driver.quit()\<close> ran\<close>
  "quits [] = 0"
| "quits (Quit # es) = Suc (quits es)"
| "quits (e # es) = quits es"

fun written :: "event list \<Rightarrow> entry list list" where
  \<comment> \<open>the reports written\<close>
  "written [] = []"
| "written (WriteResult es # evs) = es # written evs"
| "written (e # evs) = written evs"


definition acquired :: "world \<Rightarrow> string list option \<Rightarrow> config \<Rightarrow> bool" where
  \<comment> \<open>the run reached \<open>make_firefox_driver\<close> and it returned a driver\<close>
  "acquired w input cfg =
     (case input of
        None \<Rightarrow> False
      | Some raw \<Rightarrow>
          read_links raw \<noteq> [] \<and>
          (case make_firefox_driver w (headless cfg) of Inl e \<Rightarrow> False | Inr d \<Rightarrow> True))"



section \<open>The specification's wording\<close>

text \<open>
  The deduplicator and the snippet extractor as the specification words them, to be
  compared with the definitions taken from the code.
\<close>

fun first_occurrences :: "string list \<Rightarrow> string list" where
  \<comment> \<open>keep the first occurrence of each value, drop the later ones\<close>
  "first_occurrences [] = []"
| "first_occurrences (x # xs) = x # first_occurrences (filter (\<lambda>y. y \<noteq> x) xs)"

definition spec_dedup :: "string list \<Rightarrow> string list" where
  \<comment> \<open>trim each line, discard the lines that become empty, keep first occurrences\<close>
  "spec_dedup raw = first_occurrences (filter (\<lambda>l. l \<noteq> []) (map strip raw))"

definition occurs_at :: "string \<Rightarrow> string \<Rightarrow> nat \<Rightarrow> bool" where
  \<comment> \<open>\<open>k\<close> occurs in \<open>s\<close> at index \<open>i\<close>\<close>
  "occurs_at k s i = (i \<le> length s \<and> prefix k (drop i s))"





section \<open>Sample runs\<close>

definition demo_driver :: driver where
  \<comment> \<open>a driver whose failures are all caught: a timeout, a driver error, another error\<close>
  "demo_driver =
     \<lparr>drv_get = (\<lambda>c l. if l = ''slow'' then Some TimeoutException
                       else if l = ''down'' then Some (WebDriverException ''unreachable'')
                       else if l = ''odd'' then Some (OtherException ''boom'')
                       else None),
      drv_page_source = (\<lambda>c l. if l = ''blank'' then Inr None
                               else Inr (Some ''<p>hello WORLD test page</p>'')),
      drv_title = (\<lambda>c l. Inr ''Demo'')\<rparr>"

definition interrupted_driver :: driver where
  \<comment> \<open>the same driver, interrupted from the keyboard while it loads the link \<open>stop\<close>\<close>
  "interrupted_driver =
     demo_driver\<lparr>drv_get := (\<lambda>c l. if l = ''stop'' then Some KeyboardInterrupt
                                    else drv_get demo_driver c l)\<rparr>"

definition demo_world :: world where
  "demo_world =
     \<lparr>make_firefox_driver = (\<lambda>h. Inr demo_driver),
      utcnow = (\<lambda>c. ''2024-01-01T00:00:00''),
      random_draw = (\<lambda>c. 1 / 2),
      soup_get_text = (\<lambda>s. None)\<rparr>"

definition interrupted_world :: world where
  "interrupted_world = demo_world\<lparr>make_firefox_driver := (\<lambda>h. Inr interrupted_driver)\<rparr>"

definition no_driver_world :: world where
  "no_driver_world =
     demo_world\<lparr>make_firefox_driver := (\<lambda>h. Inl (WebDriverException ''geckodriver not found''))\<rparr>"

definition demo_config :: config where
  "demo_config =
     \<lparr>keyword = Some ''world'', max_links_per_site = 3,
      delay_min = 5, delay_max = 12, headless = True\<rparr>"

definition demo_entry :: "string \<Rightarrow> entry" where
  "demo_entry l =
     \<lparr>url = l, title = ''Demo'', snippet = ''...<p>hello WORLD test page</p>...'',
      timestamp = ''2024-01-01T00:00:00Z''\<rparr>"

section \<open>Strings: searching, slicing, trimming\<close>

lemma occurs_at_Nil: "occurs_at k [] j \<longleftrightarrow> j = 0 \<and> k = []"
  by (auto simp: occurs_at_def)

lemma occurs_at_Cons_0: "occurs_at k (c # cs) 0 \<longleftrightarrow> prefix k (c # cs)"
  by (simp add: occurs_at_def)

lemma occurs_at_Cons_Suc: "occurs_at k (c # cs) (Suc j) \<longleftrightarrow> occurs_at k cs j"
  by (simp add: occurs_at_def)

lemma find_from_absent:
  "find_from i s k = - 1 \<longleftrightarrow> (\<forall>j. \<not> occurs_at k s j)"
proof (induction s arbitrary: i)
  case Nil
  show ?case by (auto simp: occurs_at_Nil)
next
  case (Cons c cs)
  show ?case
  proof (cases "prefix k (c # cs)")
    case True
    then have "occurs_at k (c # cs) 0" by (simp add: occurs_at_Cons_0)
    with True show ?thesis by auto
  next
    case False
    have "(\<forall>j. \<not> occurs_at k (c # cs) j) \<longleftrightarrow> (\<forall>j. \<not> occurs_at k cs j)"
    proof
      assume a: "\<forall>j. \<not> occurs_at k (c # cs) j"
      show "\<forall>j. \<not> occurs_at k cs j"
      proof
        fix j from a have "\<not> occurs_at k (c # cs) (Suc j)" by blast
        then show "\<not> occurs_at k cs j" by (simp add: occurs_at_Cons_Suc)
      qed
    next
      assume a: "\<forall>j. \<not> occurs_at k cs j"
      show "\<forall>j. \<not> occurs_at k (c # cs) j"
      proof
        fix j show "\<not> occurs_at k (c # cs) j"
          using a False by (cases j) (simp_all add: occurs_at_Cons_0 occurs_at_Cons_Suc)
      qed
    qed
    with False Cons.IH [of "Suc i"] show ?thesis by simp
  qed
qed


lemma occurs_at_sublist: "occurs_at k s j \<Longrightarrow> sublist k s"
proof -
  assume "occurs_at k s j"
  then obtain ss where "drop j s = k @ ss"
    by (auto simp: occurs_at_def prefix_def)
  then have "s = take j s @ k @ ss"
    by (metis append_take_drop_id)
  then show ?thesis unfolding sublist_def by blast
qed







section \<open>The snippet extractor: contract and soundness\<close>



text \<open>
  Claim C10. Whenever the extractor returns a snippet, the keyword is a non-empty string,
  the lower-cased keyword is a substring of the lower-cased body, and the snippet starts
  and ends with three dots; so it is never empty.
\<close>

theorem search_in_html_sound:
  assumes "search_in_html gt html kwd = Some s"
  shows "(\<exists>kw. kwd = Some kw \<and> kw \<noteq> [] \<and> sublist (lower kw) (lower html)) \<and>
         prefix ''...'' s \<and> suffix ''...'' s \<and> s \<noteq> []"
proof -
  from assms obtain kw where kw: "kwd = Some kw" "kw \<noteq> []"
    by (cases kwd) (auto simp: search_in_html_def split: if_splits)
  from assms kw have found: "str_find (lower html) (lower kw) \<noteq> - 1"
    by (auto simp: search_in_html_def Let_def split: if_splits)
  then obtain j where "occurs_at (lower kw) (lower html) j"
    by (auto simp: str_find_def find_from_absent)
  then have sub: "sublist (lower kw) (lower html)" by (rule occurs_at_sublist)
  from assms kw found obtain t where s: "s = ''...'' @ t @ ''...''"
    by (auto simp: search_in_html_def Let_def split: if_splits)
  have "suffix ''...'' ((''...'' @ t) @ ''...'')" by (rule suffix_appendI) simp
  with s have "suffix ''...'' s" by simp
  moreover from s have "prefix ''...'' s" by simp
  moreover from s have "s \<noteq> []" by simp
  ultimately show ?thesis using kw sub by blast
qed

theorem search_in_html_sound_witness:
  "search_in_html (\<lambda>s. None) ''<p>hello WORLD test page</p>'' (Some ''world'')
     = Some ''...<p>hello WORLD test page</p>...'' \<and>
   sublist (lower ''world'') (lower ''<p>hello WORLD test page</p>'') \<and>
   prefix ''...'' ''...<p>hello WORLD test page</p>...'' \<and>
   suffix ''...'' ''...<p>hello WORLD test page</p>...''"
proof -
  have e: "search_in_html (\<lambda>s. None) ''<p>hello WORLD test page</p>'' (Some ''world'')
             = Some ''...<p>hello WORLD test page</p>...''"
    by code_simp
  from search_in_html_sound [OF e] e show ?thesis by simp
qed

section \<open>Events of one link and of the loop\<close>

lemma attempted_append: "attempted (xs @ ys) = attempted xs @ attempted ys"
  by (induction xs rule: attempted.induct) simp_all


lemma quits_append: "quits (xs @ ys) = quits xs + quits ys"
  by (induction xs rule: quits.induct) simp_all

lemma written_append: "written (xs @ ys) = written xs @ written ys"
  by (induction xs rule: written.induct) simp_all



lemma try_link_events:
  "fst (try_link w d cfg c link) = [Get link] \<or>
   fst (try_link w d cfg c link) = [Get link, RenderWait]"
  by (simp add: try_link_def Let_def split: option.split sum.split)

lemma try_link_entries:
  "snd (try_link w d cfg c link) = Inr new \<Longrightarrow>
   new = [] \<or> (\<exists>en. new = [en] \<and> url en = link)"
  by (auto simp: try_link_def Let_def split: option.splits sum.splits if_splits)

lemma try_link_no_keyword:
  "\<not> truthy (keyword cfg) \<Longrightarrow> snd (try_link w d cfg c link) = Inr new \<Longrightarrow> new = []"
  by (auto simp: try_link_def Let_def split: option.splits sum.splits if_splits)





lemma except_clauses_Inl:
  "except_clauses res = Inl e \<longleftrightarrow> res = Inl e \<and> \<not> is_Exception e"
  by (cases res; cases e) auto

lemma except_clauses_Inr:
  "except_clauses res = Inr new \<longleftrightarrow>
     res = Inr new \<or> (new = [] \<and> (\<exists>e. res = Inl e \<and> is_Exception e))"
  by (cases res) (auto elim: is_WebDriverException.elims)

text \<open>
  One iteration of the loop, by cases: the cap stops it, an exception that is not an
  \<open>Exception\<close> escapes, the sleep rejects a negative duration, or the loop goes on
  with the next link.
\<close>

lemma crawl_loop_Cons_cases:
  assumes "crawl_loop w d cfg (link # rest) st = (r, st')"
  obtains
    (cap) "max_links_per_site cfg < count st + 1" "r = None" "st' = st\<lparr>count := count st + 1\<rparr>"
  | (escape) e where
      "count st + 1 \<le> max_links_per_site cfg"
      "snd (try_link w d cfg (count st + 1) link) = Inl e" "\<not> is_Exception e" "r = Some e"
      "st' = st\<lparr>count := count st + 1,
                 events := events st @ fst (try_link w d cfg (count st + 1) link)\<rparr>"
  | (sleep_error) new where
      "count st + 1 \<le> max_links_per_site cfg"
      "uniform w (count st + 1) (delay_min cfg) (delay_max cfg) < 0" "r = Some ValueError"
      "new = [] \<or> (\<exists>en. new = [en] \<and> url en = link)"
      "\<not> truthy (keyword cfg) \<longrightarrow> new = []"
      "st' = st\<lparr>count := count st + 1,
                 entries := entries st @ new,
                 events := events st @ fst (try_link w d cfg (count st + 1) link)\<rparr>"
  | (continue) new where
      "count st + 1 \<le> max_links_per_site cfg"
      "0 \<le> uniform w (count st + 1) (delay_min cfg) (delay_max cfg)"
      "new = [] \<or> (\<exists>en. new = [en] \<and> url en = link)"
      "\<not> truthy (keyword cfg) \<longrightarrow> new = []"
      "crawl_loop w d cfg rest
         (st\<lparr>count := count st + 1,
             entries := entries st @ new,
             events := events st @ fst (try_link w d cfg (count st + 1) link)
                       @ [Delay (uniform w (count st + 1) (delay_min cfg) (delay_max cfg))]\<rparr>)
       = (r, st')"
proof (cases "max_links_per_site cfg < count st + 1")
  case True
  with assms cap show ?thesis by (simp add: Let_def)
next
  case le: False
  obtain evs res where tl: "try_link w d cfg (count st + 1) link = (evs, res)"
    by (cases "try_link w d cfg (count st + 1) link")
  show ?thesis
  proof (cases "except_clauses res")
    case (Inl e)
    then have "res = Inl e" "\<not> is_Exception e" by (simp_all add: except_clauses_Inl)
    with assms le tl Inl escape [of e] show ?thesis by (auto simp: Let_def)
  next
    case (Inr new)
    have en: "new = [] \<or> (\<exists>en. new = [en] \<and> url en = link)"
      and nk: "\<not> truthy (keyword cfg) \<longrightarrow> new = []"
    proof -
      from Inr consider "res = Inr new" | "new = []" by (auto simp: except_clauses_Inr)
      then have "(new = [] \<or> (\<exists>en. new = [en] \<and> url en = link)) \<and>
                 (\<not> truthy (keyword cfg) \<longrightarrow> new = [])"
      proof cases
        case 1
        with tl have sn: "snd (try_link w d cfg (count st + 1) link) = Inr new" by simp
        from try_link_entries [OF sn] try_link_no_keyword [OF _ sn] show ?thesis by blast
      next
        case 2
        then show ?thesis by simp
      qed
      then show "new = [] \<or> (\<exists>en. new = [en] \<and> url en = link)"
        and "\<not> truthy (keyword cfg) \<longrightarrow> new = []" by blast+
    qed
    show ?thesis
    proof (cases "uniform w (count st + 1) (delay_min cfg) (delay_max cfg) < 0")
      case True
      with assms le tl Inr en nk sleep_error [of new] show ?thesis by (auto simp: Let_def)
    next
      case False
      with assms le tl Inr en nk continue [of new] show ?thesis by (auto simp: Let_def)
    qed
  qed
qed

lemma try_link_attempted: "attempted (fst (try_link w d cfg c link)) = [link]"
  using try_link_events [of w d cfg c link] by auto


lemma try_link_quits: "quits (fst (try_link w d cfg c link)) = 0"
  using try_link_events [of w d cfg c link] by auto

lemma try_link_written: "written (fst (try_link w d cfg c link)) = []"
  using try_link_events [of w d cfg c link] by auto


lemma take_cap_Cons:
  "c + 1 \<le> (n::int) \<Longrightarrow> take (nat (n - c)) (x # xs) = x # take (nat (n - (c + 1))) xs"
proof -
  assume "c + 1 \<le> n"
  then have "nat (n - c) = Suc (nat (n - (c + 1)))" by linarith
  then show ?thesis by simp
qed

lemma take_cap_reached: "(n::int) < c + 1 \<Longrightarrow> take (nat (n - c)) xs = []"
  by simp

lemma crawl_loop_shape:
  "crawl_loop w d cfg links st = (r, st') \<Longrightarrow>
   \<exists>as new.
     attempted (events st') = attempted (events st) @ as \<and>
     entries st' = entries st @ new \<and>
     prefix as (take (nat (max_links_per_site cfg - count st)) links) \<and>
     subseq (map url new) as \<and>
     (r = None \<longrightarrow> as = take (nat (max_links_per_site cfg - count st)) links)"
proof (induction links arbitrary: st)
  case Nil
  then show ?case by simp
next
  case (Cons link rest)
  let ?c = "count st + 1"
  let ?evs = "fst (try_link w d cfg ?c link)"
  from Cons.prems show ?case
  proof (cases rule: crawl_loop_Cons_cases)
    case cap
    then show ?thesis by (simp add: take_cap_reached)
  next
    case (escape e)
    have "attempted (events st') = attempted (events st) @ [link]"
      using escape by (simp add: attempted_append try_link_attempted)
    moreover have "entries st' = entries st @ []" using escape by simp
    moreover have "prefix [link] (take (nat (max_links_per_site cfg - count st)) (link # rest))"
      using escape by (simp add: take_cap_Cons)
    ultimately show ?thesis using escape(4) by (intro exI [of _ "[link]"] exI [of _ "[]"]) simp
  next
    case (sleep_error new)
    have "attempted (events st') = attempted (events st) @ [link]"
      using sleep_error by (simp add: attempted_append try_link_attempted)
    moreover have "entries st' = entries st @ new" using sleep_error by simp
    moreover have "prefix [link] (take (nat (max_links_per_site cfg - count st)) (link # rest))"
      using sleep_error by (simp add: take_cap_Cons)
    moreover have "subseq (map url new) [link]" using sleep_error(4) by auto
    ultimately show ?thesis
      using sleep_error(3) by (intro exI [of _ "[link]"] exI [of _ new]) simp
  next
    case (continue new)
    from Cons.IH [OF continue(5)] obtain as' new' where
      a: "attempted (events st') =
            attempted (events st @ ?evs @
              [Delay (uniform w ?c (delay_min cfg) (delay_max cfg))]) @ as'"
      and e: "entries st' = (entries st @ new) @ new'"
      and p: "prefix as' (take (nat (max_links_per_site cfg - ?c)) rest)"
      and s: "subseq (map url new') as'"
      and n: "r = None \<longrightarrow> as' = take (nat (max_links_per_site cfg - ?c)) rest"
      by auto
    have "attempted (events st') = attempted (events st) @ (link # as')"
      using a by (simp add: attempted_append try_link_attempted)
    moreover have "entries st' = entries st @ (new @ new')" using e by simp
    moreover have "prefix (link # as') (take (nat (max_links_per_site cfg - count st)) (link # rest))"
      using p continue(1) by (simp add: take_cap_Cons)
    moreover have "subseq (map url (new @ new')) (link # as')"
      using s continue(3) by auto
    moreover have "r = None \<longrightarrow> link # as' = take (nat (max_links_per_site cfg - count st)) (link # rest)"
      using n continue(1) by (simp add: take_cap_Cons)
    ultimately show ?thesis
      by (intro exI [of _ "link # as'"] exI [of _ "new @ new'"]) simp
  qed
qed

lemma crawl_loop_quits:
  "crawl_loop w d cfg links st = (r, st') \<Longrightarrow>
   quits (events st') = quits (events st) \<and> written (events st') = written (events st)"
proof (induction links arbitrary: st)
  case Nil
  then show ?case by simp
next
  case (Cons link rest)
  from Cons.prems show ?case
  proof (cases rule: crawl_loop_Cons_cases)
    case (continue new)
    from Cons.IH [OF continue(5)] show ?thesis
      by (simp add: quits_append written_append try_link_quits try_link_written)
  qed (simp_all add: quits_append written_append try_link_quits try_link_written)
qed

lemma crawl_loop_no_keyword:
  "\<not> truthy (keyword cfg) \<Longrightarrow> crawl_loop w d cfg links st = (r, st') \<Longrightarrow>
   entries st' = entries st"
proof (induction links arbitrary: st)
  case Nil
  then show ?case by simp
next
  case (Cons link rest)
  from Cons.prems(2) show ?case
  proof (cases rule: crawl_loop_Cons_cases)
    case (continue new)
    with Cons.prems(1) have "new = []" by simp
    with Cons.IH [OF Cons.prems(1) continue(5)] show ?thesis by simp
  next
    case (sleep_error new)
    with Cons.prems(1) show ?thesis by simp
  qed simp_all
qed






section \<open>The link deduplicator\<close>

lemma first_occurrences_set: "set (first_occurrences xs) = set xs"
  by (induction xs rule: first_occurrences.induct) auto

lemma first_occurrences_distinct: "distinct (first_occurrences xs)"
  by (induction xs rule: first_occurrences.induct) (auto simp: first_occurrences_set)

lemma fold_dedup_step:
  "fold dedup_step xs (set acc, acc) =
     (set acc \<union> set xs, acc @ first_occurrences (filter (\<lambda>x. x \<notin> set acc) xs))"
proof (induction xs arbitrary: acc)
  case Nil
  show ?case by simp
next
  case (Cons x xs)
  show ?case
  proof (cases "x \<in> set acc")
    case True
    then have "dedup_step x (set acc, acc) = (set acc, acc)" by (simp add: dedup_step_def)
    with Cons.IH [of acc] True show ?thesis by auto
  next
    case False
    then have step: "dedup_step x (set acc, acc) = (set (acc @ [x]), acc @ [x])"
      by (simp add: dedup_step_def)
    have "filter (\<lambda>y. y \<noteq> x) (filter (\<lambda>y. y \<notin> set acc) xs)
          = filter (\<lambda>y. y \<notin> set (acc @ [x])) xs"
      by (auto intro: filter_cong)
    with Cons.IH [of "acc @ [x]"] step False show ?thesis by auto
  qed
qed

lemma dedup_eq_first_occurrences: "dedup links = first_occurrences links"
  using fold_dedup_step [of links "[]"] by (simp add: dedup_def)

lemma read_links_filter: "read_links raw = filter (\<lambda>l. l \<noteq> []) (map strip raw)"
  by (simp add: read_links_def filter_map comp_def)

text \<open>
  Claim C5. The links the run works on are the trimmed, non-empty input lines with only
  the first occurrence of each value kept, in order of first appearance: the code's loop
  over a \<open>seen\<close> set computes exactly that list; its elements are pairwise distinct, they
  are exactly the trimmed non-empty lines, and an empty input gives an empty list.
\<close>

theorem dedup_first_occurrences:
  "dedup (read_links raw) = spec_dedup raw \<and>
   distinct (dedup (read_links raw)) \<and>
   set (dedup (read_links raw)) = {strip ln | ln. ln \<in> set raw \<and> strip ln \<noteq> []} \<and>
   dedup (read_links []) = []"
proof (intro conjI)
  show "dedup (read_links raw) = spec_dedup raw"
    by (simp add: dedup_eq_first_occurrences read_links_filter spec_dedup_def)
  show "distinct (dedup (read_links raw))"
    by (simp add: dedup_eq_first_occurrences first_occurrences_distinct)
  show "set (dedup (read_links raw)) = {strip ln | ln. ln \<in> set raw \<and> strip ln \<noteq> []}"
    by (auto simp: dedup_eq_first_occurrences first_occurrences_set read_links_def)
  show "dedup (read_links []) = []"
    by (simp add: dedup_def read_links_def)
qed

theorem dedup_first_occurrences_witness:
  "dedup (read_links [''a'', ''b'', ''a'', '' b '', ''c'']) = [''a'', ''b'', ''c'']"
proof -
  have "spec_dedup [''a'', ''b'', ''a'', '' b '', ''c''] = [''a'', ''b'', ''c'']"
    by code_simp
  with dedup_first_occurrences [of "[''a'', ''b'', ''a'', '' b '', ''c'']"]
  show ?thesis by simp
qed


section \<open>The crawl loop and the run\<close>

lemma events_tail:
  "attempted (evs @ [Quit]) = attempted evs"
  "attempted (evs @ [Quit, WriteResult es]) = attempted evs"
  "quits (evs @ [Quit]) = Suc (quits evs)"
  "quits (evs @ [Quit, WriteResult es]) = Suc (quits evs)"
  "written (evs @ [Quit]) = written evs"
  "written (evs @ [Quit, WriteResult es]) = written evs @ [es]"
  by (simp_all add: attempted_append quits_append written_append)



text \<open>
  Claim C1. In a run that acquired its driver, with a cap \<open>max_links_per_site\<close> that is
  not negative, the loop never attempts more links than the cap, the attempted links are
  an initial segment of the deduplicated list, the match records follow the order of the
  attempted links that produced them, and no match record names a link beyond the cap.
  If the loop ends without an exception on a list longer than the cap \<open>N\<close>, exactly the
  first \<open>N\<close> links are attempted.
\<close>

theorem crawl_loop_cap_and_order:
  assumes "0 \<le> max_links_per_site cfg"
    and "distinct links"
    and "crawl_loop w d cfg links \<lparr>count = 0, entries = [], events = [StartDriver]\<rparr> = (r, st)"
  shows "int (length (attempted (events st))) \<le> max_links_per_site cfg \<and>
         prefix (attempted (events st)) links \<and>
         subseq (map url (entries st)) (attempted (events st)) \<and>
         set (map url (entries st)) \<inter> set (drop (nat (max_links_per_site cfg)) links) = {} \<and>
         (r = None \<and> max_links_per_site cfg < int (length links) \<longrightarrow>
            int (length (attempted (events st))) = max_links_per_site cfg \<and>
            attempted (events st) = take (nat (max_links_per_site cfg)) links)"
proof -
  let ?n = "nat (max_links_per_site cfg)"
  from crawl_loop_shape [OF assms(3)] obtain as new where
    a: "attempted (events st) = as" and e: "entries st = new"
    and p: "prefix as (take ?n links)" and s: "subseq (map url new) as"
    and c: "r = None \<longrightarrow> as = take ?n links"
    by auto
  from p have "length as \<le> length (take ?n links)" by (rule prefix_length_le)
  then have "length as \<le> ?n" by simp
  with assms(1) have len: "int (length as) \<le> max_links_per_site cfg" by linarith
  from p have pre: "prefix as links" by (blast intro: prefix_order.trans take_is_prefix)
  have "set (map url new) \<subseteq> set as"
  proof
    fix x assume "x \<in> set (map url new)"
    with s obtain y where "y \<in> set as" "x = y" by (rule list_emb_set)
    then show "x \<in> set as" by simp
  qed
  moreover from p have "set as \<subseteq> set (take ?n links)" by (rule set_mono_prefix)
  moreover from assms(2) have "set (take ?n links) \<inter> set (drop ?n links) = {}"
    by (rule set_take_disj_set_drop_if_distinct) simp
  ultimately have rest: "set (map url new) \<inter> set (drop ?n links) = {}" by blast
  have capped: "int (length as) = max_links_per_site cfg \<and> as = take ?n links"
    if "r = None" and "max_links_per_site cfg < int (length links)"
  proof -
    from c that(1) have t: "as = take ?n links" by simp
    from that(2) assms(1) have "length (take ?n links) = ?n" by simp
    with t assms(1) show ?thesis by simp
  qed
  show ?thesis unfolding a e using len pre s rest capped by blast
qed

theorem crawl_loop_cap_and_order_witness:
  "0 \<le> max_links_per_site demo_config \<and>
   distinct [''a'', ''slow'', ''b'', ''c''] \<and>
   crawl_loop demo_world demo_driver demo_config [''a'', ''slow'', ''b'', ''c'']
     \<lparr>count = 0, entries = [], events = [StartDriver]\<rparr>
   = (None, \<lparr>count = 4, entries = [demo_entry ''a'', demo_entry ''b''],
             events = [StartDriver, Get ''a'', RenderWait, Delay (17 / 2),
                       Get ''slow'', Delay (17 / 2),
                       Get ''b'', RenderWait, Delay (17 / 2)]\<rparr>) \<and>
   max_links_per_site demo_config < int (length [''a'', ''slow'', ''b'', ''c'']) \<and>
   int (length [''a'', ''slow'', ''b'']) = max_links_per_site demo_config \<and>
   subseq [''a'', ''b''] [''a'', ''slow'', ''b''] \<and>
   set [''a'', ''b''] \<inter> set (drop 3 [''a'', ''slow'', ''b'', ''c'']) = {}"
proof -
  have m: "0 \<le> max_links_per_site demo_config" by (simp add: demo_config_def)
  have d: "distinct [''a'', ''slow'', ''b'', ''c'']" by simp
  have run: "crawl_loop demo_world demo_driver demo_config [''a'', ''slow'', ''b'', ''c'']
       \<lparr>count = 0, entries = [], events = [StartDriver]\<rparr>
     = (None, \<lparr>count = 4, entries = [demo_entry ''a'', demo_entry ''b''],
               events = [StartDriver, Get ''a'', RenderWait, Delay (17 / 2),
                         Get ''slow'', Delay (17 / 2),
                         Get ''b'', RenderWait, Delay (17 / 2)]\<rparr>)"
    by code_simp
  from crawl_loop_cap_and_order [OF m d run] m d run
  show ?thesis by (simp add: demo_config_def demo_entry_def)
qed



text \<open>
  Claim C3. \<open>driver.quit()\<close> runs exactly once in every run that acquired a driver,
  however the loop ends (links exhausted, cap reached, an exception escaping from the
  loop), and never in a run that acquired none.
\<close>

theorem driver_quit_exactly_once:
  "quits (snd (crawl_file w input cfg)) = (if acquired w input cfg then 1 else 0)"
proof (cases input)
  case None
  then show ?thesis by (simp add: crawl_file_def acquired_def)
next
  case (Some raw)
  show ?thesis
  proof (cases "read_links raw = []")
    case True
    with Some show ?thesis by (simp add: crawl_file_def acquired_def)
  next
    case links: False
    show ?thesis
    proof (cases "make_firefox_driver w (headless cfg)")
      case (Inl e)
      with Some links show ?thesis by (simp add: crawl_file_def acquired_def)
    next
      case (Inr d)
      obtain r st where run:
        "crawl_loop w d cfg (dedup (read_links raw))
           \<lparr>count = 0, entries = [], events = [StartDriver]\<rparr> = (r, st)"
        by (cases "crawl_loop w d cfg (dedup (read_links raw))
                     \<lparr>count = 0, entries = [], events = [StartDriver]\<rparr>")
      from crawl_loop_quits [OF run] have q: "quits (events st) = 0" by simp
      from Some links Inr run q show ?thesis
        by (cases r) (simp_all add: crawl_file_def acquired_def Let_def events_tail)
    qed
  qed
qed

theorem driver_quit_exactly_once_witness:
  "crawl_file interrupted_world (Some [''a'', ''stop'', ''b'']) demo_config
     = (Raised KeyboardInterrupt,
        [StartDriver, Get ''a'', RenderWait, Delay (17 / 2), Get ''stop'', Quit]) \<and>
   acquired interrupted_world (Some [''a'', ''stop'', ''b'']) demo_config \<and>
   quits (snd (crawl_file interrupted_world (Some [''a'', ''stop'', ''b'']) demo_config)) = 1 \<and>
   \<not> acquired no_driver_world (Some [''a'']) demo_config \<and>
   quits (snd (crawl_file no_driver_world (Some [''a'']) demo_config)) = 0"
proof -
  have r: "crawl_file interrupted_world (Some [''a'', ''stop'', ''b'']) demo_config
     = (Raised KeyboardInterrupt,
        [StartDriver, Get ''a'', RenderWait, Delay (17 / 2), Get ''stop'', Quit])"
    by code_simp
  have a: "acquired interrupted_world (Some [''a'', ''stop'', ''b'']) demo_config"
    by code_simp
  have n: "\<not> acquired no_driver_world (Some [''a'']) demo_config"
    by code_simp
  from driver_quit_exactly_once [of interrupted_world "Some [''a'', ''stop'', ''b'']" demo_config]
    driver_quit_exactly_once [of no_driver_world "Some [''a'']" demo_config] r a n
  show ?thesis by simp
qed





text \<open>
  Claim C7. With a keyword that is empty or \<open>None\<close>, the extractor returns \<open>None\<close> (not
  an empty string) for every body, the loop appends no match record whatever the pages
  contain, and every report the run writes is empty.
\<close>

theorem no_keyword_no_matches:
  assumes "\<not> truthy (keyword cfg)"
  shows "search_in_html gt html (keyword cfg) = None \<and>
         entries (snd (crawl_loop w d cfg links st)) = entries st \<and>
         (\<forall>es \<in> set (written (snd (crawl_file w input cfg))). es = [])"
proof (intro conjI)
  from assms show "search_in_html gt html (keyword cfg) = None"
    by (simp add: truthy_def search_in_html_def split: option.splits)
  have loop: "entries st' = entries st0" if "crawl_loop w d' cfg ls st0 = (r, st')"
    for d' ls st0 r st'
    using assms that by (rule crawl_loop_no_keyword)
  show "entries (snd (crawl_loop w d cfg links st)) = entries st"
    by (cases "crawl_loop w d cfg links st") (simp add: loop)
  show "\<forall>es \<in> set (written (snd (crawl_file w input cfg))). es = []"
  proof (cases input)
    case None
    then show ?thesis by (simp add: crawl_file_def)
  next
    case (Some raw)
    show ?thesis
    proof (cases "make_firefox_driver w (headless cfg)")
      case (Inl e)
      with Some show ?thesis by (simp add: crawl_file_def Let_def)
    next
      case (Inr d')
      obtain r st' where run:
        "crawl_loop w d' cfg (dedup (read_links raw))
           \<lparr>count = 0, entries = [], events = [StartDriver]\<rparr> = (r, st')"
        by (cases "crawl_loop w d' cfg (dedup (read_links raw))
                     \<lparr>count = 0, entries = [], events = [StartDriver]\<rparr>")
      from loop [OF run] have e: "entries st' = []" by simp
      from crawl_loop_quits [OF run] have wr: "written (events st') = []" by simp
      from Some Inr run e wr show ?thesis
        by (cases r) (simp_all add: crawl_file_def Let_def events_tail)
    qed
  qed
qed

theorem no_keyword_no_matches_witness:
  "\<not> truthy (keyword (demo_config\<lparr>keyword := Some []\<rparr>)) \<and>
   \<not> truthy (keyword (demo_config\<lparr>keyword := None\<rparr>)) \<and>
   search_in_html (\<lambda>s. None) ''<p>hello WORLD test page</p>'' (Some []) = None \<and>
   search_in_html (\<lambda>s. None) ''<p>hello WORLD test page</p>'' None = None \<and>
   written (snd (crawl_file demo_world (Some [''a'', ''b'']) (demo_config\<lparr>keyword := Some []\<rparr>)))
     = [ [] ]"
proof -
  have e: "\<not> truthy (keyword (demo_config\<lparr>keyword := Some []\<rparr>))"
    and n: "\<not> truthy (keyword (demo_config\<lparr>keyword := None\<rparr>))"
    by (simp_all add: truthy_def)
  have w: "written (snd (crawl_file demo_world (Some [''a'', ''b''])
             (demo_config\<lparr>keyword := Some []\<rparr>))) = [ [] ]"
    by code_simp
  from no_keyword_no_matches [OF e, of "\<lambda>s. None" "''<p>hello WORLD test page</p>''"]
    no_keyword_no_matches [OF n, of "\<lambda>s. None" "''<p>hello WORLD test page</p>''"] e n w
  show ?thesis by simp
qed




text \<open>
  Claim C9, for an input file that exists. An input with no non-blank line makes the run
  a no-op: \<open>crawl_file\<close> returns at once, no driver is started, no link is attempted
  and nothing is written.
\<close>

theorem blank_input_is_noop:
  assumes "\<forall>ln \<in> set raw. strip ln = []"
  shows "crawl_file w (Some raw) cfg = (Returned, []) \<and>
         \<not> acquired w (Some raw) cfg \<and>
         exits_zero (fst (crawl_file w (Some raw) cfg))"
proof -
  from assms have "filter (\<lambda>ln. strip ln \<noteq> []) raw = []"
    by (simp add: filter_empty_conv)
  then have "read_links raw = []" by (simp add: read_links_def)
  then show ?thesis by (simp add: crawl_file_def acquired_def exits_zero_def)
qed

theorem blank_input_is_noop_witness:
  "strip [] = [] \<and> strip ''   '' = [] \<and> strip [CHR 0x09] = [] \<and>
   crawl_file demo_world (Some ['''', ''   '', [CHR 0x09]]) demo_config = (Returned, []) \<and>
   crawl_file demo_world (Some []) demo_config = (Returned, [])"
proof -
  have b: "\<forall>ln \<in> set ['''', ''   '', [CHR 0x09]]. strip ln = []" by code_simp
  have e: "\<forall>ln \<in> set ([] :: string list). strip ln = []" by simp
  from blank_input_is_noop [OF b, of demo_world demo_config]
    blank_input_is_noop [OF e, of demo_world demo_config] b
  show ?thesis by simp
qed

text \<open>
  A missing input file is another matter: \<open>open\<close> raises, nothing catches the
  exception, and the run ends with an error instead of a no-op.
\<close>

theorem missing_input_counterexample:
  "crawl_file demo_world None demo_config = (Raised FileNotFoundError, []) \<and>
   \<not> exits_zero (fst (crawl_file demo_world None demo_config))"
  by code_simp

end
